theory Spec2Isabelle
  imports Main "HOL-Library.AList" "HOL-Library.Char_ord" "HOL-Library.List_Lexorder"
    "HOL-Library.Multiset"
begin

section \<open>The in-memory cache (app/services/cache.py)\<close>

text \<open>
  Time is an integer number of microseconds, the resolution of \<open>datetime\<close>; a TTL is a
  number of seconds. The range limits of \<open>datetime\<close> are not modelled. Every operation
  runs under the cache's lock, so the operations of a cache are a sequence; the clock
  reading an operation makes is an argument of its model.
\<close>

type_synonym timestamp = int

record 'v CacheEntry =
  entry_value :: 'v
  created_at :: timestamp
  expires_at :: "timestamp option"

text \<open>\<open>CacheEntry.__init__\<close>: a TTL that is \<open>None\<close> or \<open>0\<close> is falsy, so no expiry is set.\<close>

definition CacheEntry_init :: "timestamp \<Rightarrow> 'v \<Rightarrow> int option \<Rightarrow> 'v CacheEntry" where
  "CacheEntry_init now v ttl_seconds =
     \<lparr> entry_value = v, created_at = now,
       expires_at = (case ttl_seconds of
                       None \<Rightarrow> None
                     | Some t \<Rightarrow> if t \<noteq> 0 then Some (now + t * 1000000) else None) \<rparr>"

definition is_expired :: "timestamp \<Rightarrow> 'v CacheEntry \<Rightarrow> bool" where
  "is_expired now e = (case expires_at e of None \<Rightarrow> False | Some t \<Rightarrow> now > t)"

text \<open>
  The dictionary \<open>_cache\<close> is an association list in insertion order (\<open>AList.update\<close>
  overwrites in place or appends, \<open>AList.delete\<close> removes the key), \<open>_access_order\<close>
  is the list of keys, least recently used first.
\<close>

record 'v InMemoryCache =
  cache :: "(string \<times> 'v CacheEntry) list"
  max_size :: int
  default_ttl :: int
  access_order :: "string list"

definition InMemoryCache_init :: "int \<Rightarrow> int \<Rightarrow> 'v InMemoryCache" where
  "InMemoryCache_init m d = \<lparr> cache = [], max_size = m, default_ttl = d, access_order = [] \<rparr>"

text \<open>\<open>if key in self._access_order: self._access_order.remove(key)\<close>\<close>

definition remove_key :: "string \<Rightarrow> string list \<Rightarrow> string list" where
  "remove_key key order = (if key \<in> set order then remove1 key order else order)"

definition InMemoryCache_get ::
  "timestamp \<Rightarrow> string \<Rightarrow> 'v InMemoryCache \<Rightarrow> 'v option \<times> 'v InMemoryCache" where
  "InMemoryCache_get now key s =
     (case map_of (cache s) key of
        None \<Rightarrow> (None, s)
      | Some entry \<Rightarrow>
          if is_expired now entry
          then (None, s\<lparr> cache := AList.delete key (cache s),
                         access_order := remove_key key (access_order s) \<rparr>)
          else (Some (entry_value entry),
                s\<lparr> access_order := remove_key key (access_order s) @ [key] \<rparr>))"

text \<open>
  The eviction loop of \<open>set\<close>:
  \<open>while len(self._cache) >= self._max_size and self._access_order\<close>, popping the head
  of the recency list and deleting that key when the dictionary has it.
\<close>

fun evict ::
  "int \<Rightarrow> (string \<times> 'v CacheEntry) list \<Rightarrow> string list
     \<Rightarrow> (string \<times> 'v CacheEntry) list \<times> string list" where
  "evict m c [] = (c, [])"
| "evict m c (oldest_key # rest) =
     (if int (length c) \<ge> m
      then evict m (if oldest_key \<in> fst ` set c then AList.delete oldest_key c else c) rest
      else (c, oldest_key # rest))"

definition InMemoryCache_set ::
  "timestamp \<Rightarrow> string \<Rightarrow> 'v \<Rightarrow> int option \<Rightarrow> 'v InMemoryCache \<Rightarrow> 'v InMemoryCache" where
  "InMemoryCache_set now key v ttl s =
     (case evict (max_size s) (cache s) (access_order s) of
        (c, order) \<Rightarrow>
          let effective_ttl = (case ttl of Some t \<Rightarrow> t | None \<Rightarrow> default_ttl s)
          in s\<lparr> cache := AList.update key (CacheEntry_init now v (Some effective_ttl)) c,
                access_order := remove_key key order @ [key] \<rparr>)"

definition InMemoryCache_delete :: "string \<Rightarrow> 'v InMemoryCache \<Rightarrow> bool \<times> 'v InMemoryCache" where
  "InMemoryCache_delete key s =
     (if key \<in> fst ` set (cache s)
      then (True, s\<lparr> cache := AList.delete key (cache s),
                     access_order := remove_key key (access_order s) \<rparr>)
      else (False, s))"

definition InMemoryCache_clear :: "'v InMemoryCache \<Rightarrow> 'v InMemoryCache" where
  "InMemoryCache_clear s = s\<lparr> cache := [], access_order := [] \<rparr>"

text \<open>
  \<open>size\<close> reads the clock once for every entry it examines: \<open>clock k\<close> is the reading made
  at the entry of key \<open>k\<close>.
\<close>

definition purge :: "string \<Rightarrow> 'v InMemoryCache \<Rightarrow> 'v InMemoryCache" where
  "purge key s = s\<lparr> cache := AList.delete key (cache s),
                    access_order := remove_key key (access_order s) \<rparr>"

definition InMemoryCache_size ::
  "(string \<Rightarrow> timestamp) \<Rightarrow> 'v InMemoryCache \<Rightarrow> nat \<times> 'v InMemoryCache" where
  "InMemoryCache_size clock s =
     (let expired_keys = map fst (filter (\<lambda>(k, v). is_expired (clock k) v) (cache s));
          s' = fold purge expired_keys s
      in (length (cache s'), s'))"

text \<open>A finite sequence of operations on one cache, each with its clock readings.\<close>

datatype 'v cache_op =
    Get timestamp string
  | Set timestamp string 'v "int option"
  | Delete string
  | Clear
  | Size "string \<Rightarrow> timestamp"

fun apply_op :: "'v cache_op \<Rightarrow> 'v InMemoryCache \<Rightarrow> 'v InMemoryCache" where
  "apply_op (Get now key) s = snd (InMemoryCache_get now key s)"
| "apply_op (Set now key v ttl) s = InMemoryCache_set now key v ttl s"
| "apply_op (Delete key) s = snd (InMemoryCache_delete key s)"
| "apply_op Clear s = InMemoryCache_clear s"
| "apply_op (Size clock) s = snd (InMemoryCache_size clock s)"

definition run_ops :: "'v cache_op list \<Rightarrow> 'v InMemoryCache \<Rightarrow> 'v InMemoryCache" where
  "run_ops ops s = fold apply_op ops s"

text \<open>
  What every reachable cache satisfies: the dictionary's keys are unique, and the recency
  list holds exactly the dictionary's keys, each once.
\<close>

definition cache_inv :: "'v InMemoryCache \<Rightarrow> bool" where
  "cache_inv s \<longleftrightarrow>
     distinct (map fst (cache s)) \<and> distinct (access_order s) \<and>
     set (access_order s) = fst ` set (cache s)"

fun reads_only :: "'v cache_op \<Rightarrow> bool" where
  "reads_only (Get now key) = True"
| "reads_only (Size clock) = True"
| "reads_only _ = False"

definition holds_forever :: "string \<Rightarrow> 'v \<Rightarrow> 'v InMemoryCache \<Rightarrow> bool" where
  "holds_forever k v s \<longleftrightarrow>
     cache_inv s \<and>
     (\<exists>e. map_of (cache s) k = Some e \<and> entry_value e = v \<and> expires_at e = None)"

section \<open>Text primitives of Python\<close>

text \<open>
  A Python \<open>str\<close> is modelled as a \<open>string\<close>, so the model covers the texts whose code
  points are below 256. \<open>isspace\<close> is \<open>str.isspace\<close> on one character, which is also
  what \<open>\s\<close> matches in a \<open>str\<close> pattern of \<open>re\<close>; \<open>lower_char\<close> is \<open>str.lower\<close> on
  one character.
\<close>

definition isspace :: "char \<Rightarrow> bool" where
  "isspace c \<longleftrightarrow> (of_char c :: nat) \<in> {9, 10, 11, 12, 13, 28, 29, 30, 31, 32, 133, 160}"

definition lstrip :: "string \<Rightarrow> string" where
  "lstrip text = dropWhile isspace text"

definition rstrip :: "string \<Rightarrow> string" where
  "rstrip text = rev (dropWhile isspace (rev text))"

definition strip :: "string \<Rightarrow> string" where
  "strip text = rstrip (lstrip text)"

definition rstrip_chars :: "string \<Rightarrow> string \<Rightarrow> string" where
  "rstrip_chars chars text = rev (dropWhile (\<lambda>c. c \<in> set chars) (rev text))"

definition lower_char :: "char \<Rightarrow> char" where
  "lower_char c =
     (let n = (of_char c :: nat)
      in if (65 \<le> n \<and> n \<le> 90) \<or> (192 \<le> n \<and> n \<le> 222 \<and> n \<noteq> 215)
         then char_of (n + 32) else c)"

definition lower :: "string \<Rightarrow> string" where
  "lower text = map lower_char text"

definition startswith :: "string \<Rightarrow> string \<Rightarrow> bool" where
  "startswith text p \<longleftrightarrow> take (length p) text = p"

definition endswith :: "string \<Rightarrow> string \<Rightarrow> bool" where
  "endswith text p \<longleftrightarrow> length p \<le> length text \<and> drop (length text - length p) text = p"

definition count_char :: "char \<Rightarrow> string \<Rightarrow> int" where
  "count_char c text = int (length (filter (\<lambda>x. x = c) text))"

fun join :: "string \<Rightarrow> string list \<Rightarrow> string" where
  "join sep [] = []"
| "join sep [x] = x"
| "join sep (x # y # ys) = x @ sep @ join sep (y # ys)"

text \<open>The decimal text of an integer, as an f-string renders it.\<close>

fun str_nat :: "nat \<Rightarrow> string" where
  "str_nat n =
     (if n < 10 then [char_of (48 + n)]
      else str_nat (n div 10) @ [char_of (48 + n mod 10)])"

definition str_int :: "int \<Rightarrow> string" where
  "str_int i = (if i < 0 then CHR ''-'' # str_nat (nat (- i)) else str_nat (nat i))"

section \<open>The recipe key (CacheService.generate_recipe_key)\<close>

text \<open>
  \<open>md5_hex\<close> stands for \<open>hashlib.md5(s.encode()).hexdigest()\<close> of the standard library;
  the key is that digest of the key string. \<open>sorted\<close> orders strings by code point,
  lexicographically.
\<close>

definition key_string :: "string \<Rightarrow> int \<Rightarrow> string list option \<Rightarrow> string" where
  "key_string dish_name servings dietary_restrictions =
     (let dietary_str = (case dietary_restrictions of
                           None \<Rightarrow> []
                         | Some rs \<Rightarrow> if rs \<noteq> [] then join ''_'' (sort rs) else [])
      in strip (lower dish_name) @ ''_'' @ str_int servings @ ''_'' @ dietary_str)"

definition generate_recipe_key ::
  "(string \<Rightarrow> string) \<Rightarrow> string \<Rightarrow> int \<Rightarrow> string list option \<Rightarrow> string" where
  "generate_recipe_key md5_hex dish_name servings dietary_restrictions =
     md5_hex (key_string dish_name servings dietary_restrictions)"

section \<open>The response decoder (GeminiService._parse_response)\<close>

text \<open>
  \<open>GeminiServiceError\<close> carries a message and an error code. The decoder returns the
  parsed value, raises a \<open>GeminiServiceError\<close>, or lets an exception that it does not
  catch escape; that exception is named by its class. What the decoder logs is not part of
  the model.
\<close>

record GeminiServiceError =
  message :: string
  error_code :: string

datatype decode_failure =
    ServiceError GeminiServiceError
  | Unhandled string

text \<open>
  What a call of the parser does: it returns a value, raises \<open>json.JSONDecodeError\<close>, or
  raises an exception of another class.
\<close>

datatype 'j loads_result =
    Parsed 'j
  | JSONDecodeError
  | OtherException string

text \<open>Removing a leading and a trailing markdown fence.\<close>

definition strip_fences :: "string \<Rightarrow> string" where
  "strip_fences text =
     (let text1 = (if startswith text ''```json'' then drop 7 text
                   else if startswith text ''```'' then drop 3 text
                   else text)
      in if endswith text1 ''```'' then take (length text1 - 3) text1 else text1)"

text \<open>
  \<open>re.sub(r',(\s*[}\]])', r'\1', text)\<close>: one pass from the left over the matches
  that do not overlap. At a comma, \<open>match_group\<close> is the group the pattern captures
  after it (whitespace, then a closing brace or bracket) and the text left after the
  match; the match is replaced by its group and the scan goes on behind it.
\<close>

definition match_group :: "string \<Rightarrow> (string \<times> string) option" where
  "match_group cs =
     (case dropWhile isspace cs of
        [] \<Rightarrow> None
      | d # rest \<Rightarrow>
          if d = CHR ''}'' \<or> d = CHR '']''
          then Some (takeWhile isspace cs @ [d], rest) else None)"

function remove_trailing_commas :: "string \<Rightarrow> string" where
  "remove_trailing_commas [] = []"
| "remove_trailing_commas (c # cs) =
     (if c = CHR '',''
      then (case match_group cs of
              Some (g, rest) \<Rightarrow> g @ remove_trailing_commas rest
            | None \<Rightarrow> c # remove_trailing_commas cs)
      else c # remove_trailing_commas cs)"
  by pat_completeness auto
termination
proof (relation "measure length")
  fix c :: char and cs x2 x y
  assume "match_group cs = Some x2" "(x, y) = x2"
  then have "dropWhile isspace cs = last x # y"
    by (auto simp: match_group_def split: list.splits if_splits)
  then have "length (dropWhile isspace cs) = Suc (length y)" by simp
  moreover have "length (dropWhile isspace cs) \<le> length cs" by (rule length_dropWhile_le)
  ultimately show "(y, c # cs) \<in> measure length" by simp
qed simp_all

text \<open>A closing brace or bracket follows, after optional whitespace.\<close>

definition closer_follows :: "string \<Rightarrow> bool" where
  "closer_follows cs =
     (case dropWhile isspace cs of
        [] \<Rightarrow> False
      | d # rest \<Rightarrow> d = CHR ''}'' \<or> d = CHR '']'')"

text \<open>\<open>text.replace('\\"', '')\<close>: every backslash followed by a quote is removed.\<close>

fun remove_escaped_quotes :: "string \<Rightarrow> string" where
  "remove_escaped_quotes (a # b # cs) =
     (if a = CHR 0x5C \<and> b = CHR 0x22 then remove_escaped_quotes cs
      else a # remove_escaped_quotes (b # cs))"
| "remove_escaped_quotes cs = cs"

text \<open>
  The repair of a truncated text: when an opening brace or bracket is unmatched, an odd
  number of quotes closes the string, trailing commas and whitespace are dropped, and
  the missing brackets, then the missing braces, are appended.
\<close>

definition close_truncated :: "string \<Rightarrow> string" where
  "close_truncated text =
     (let open_braces = count_char CHR ''{'' text - count_char CHR ''}'' text;
          open_brackets = count_char CHR ''['' text - count_char CHR '']'' text
      in if open_brackets > 0 \<or> open_braces > 0
         then
           let temp = remove_escaped_quotes text;
               quote_count = count_char (CHR 0x22) temp;
               text1 = (if quote_count mod 2 = 1
                        then (let t = rstrip text
                              in if \<not> endswith t [CHR 0x22] then t @ [CHR 0x22] else t)
                        else text);
               text2 = rstrip_chars [CHR '','', CHR 0x0A, CHR 0x09, CHR '' ''] text1
           in text2 @ replicate (nat open_brackets) CHR '']''
                    @ replicate (nat open_braces) CHR ''}''
         else text)"

text \<open>The text that is handed to the parser first.\<close>

definition repair_text :: "string \<Rightarrow> string" where
  "repair_text response_text =
     close_truncated (remove_trailing_commas (strip (strip_fences (strip response_text))))"

text \<open>The candidate of the last resort for the prefix of length \<open>i\<close>.\<close>

definition close_partial :: "string \<Rightarrow> nat \<Rightarrow> string" where
  "close_partial text i =
     (let partial = rstrip_chars [CHR '','', CHR 0x0A, CHR 0x09, CHR '' ''] (take i text);
          open_b = count_char CHR ''{'' partial - count_char CHR ''}'' partial;
          open_br = count_char CHR ''['' partial - count_char CHR '']'' partial
      in partial @ replicate (nat open_br) CHR '']'' @ replicate (nat open_b) CHR ''}'')"

text \<open>
  \<open>for i in range(len(text), 0, -1)\<close>: the first candidate that parses is returned.
  The bare \<open>except:\<close> of the loop body catches whatever the parser raises on a
  candidate, and the loop goes on.
\<close>

fun try_partials ::
  "(string \<Rightarrow> 'j loads_result) \<Rightarrow> string \<Rightarrow> nat \<Rightarrow> 'j option" where
  "try_partials loads text 0 = None"
| "try_partials loads text (Suc i) =
     (case loads (close_partial text (Suc i)) of
        Parsed result \<Rightarrow> Some result
      | JSONDecodeError \<Rightarrow> try_partials loads text i
      | OtherException x \<Rightarrow> try_partials loads text i)"

text \<open>
  The first call of the parser stands under \<open>except json.JSONDecodeError\<close> alone: only
  that exception leads to the last resort and to the \<open>GeminiServiceError\<close>, an exception
  of another class leaves \<open>_parse_response\<close> as it is.
\<close>

definition parse_response ::
  "(string \<Rightarrow> 'j loads_result) \<Rightarrow> string \<Rightarrow> decode_failure + 'j" where
  "parse_response loads response_text =
     (let text = repair_text response_text
      in case loads text of
           Parsed result \<Rightarrow> Inr result
         | OtherException x \<Rightarrow> Inl (Unhandled x)
         | JSONDecodeError \<Rightarrow>
             (case try_partials loads text (length text) of
                Some result \<Rightarrow> Inr result
              | None \<Rightarrow>
                  Inl (ServiceError \<lparr> message = ''Failed to parse recipe data from AI.'',
                                      error_code = ''JSON_PARSE_ERROR'' \<rparr>)))"

text \<open>
  A comma that is followed by optional whitespace and a closing brace or bracket occurs
  in the text.
\<close>

fun has_trailing_comma :: "string \<Rightarrow> bool" where
  "has_trailing_comma [] = False"
| "has_trailing_comma (c # cs) = ((c = CHR '','' \<and> closer_follows cs) \<or> has_trailing_comma cs)"

section \<open>The JSON parser the decoder calls\<close>

text \<open>
  \<open>json.loads\<close> belongs to Python's standard library, not to the repository. The decoder
  is modelled for any parser; \<open>json_loads\<close> is the parser of the JSON grammar as Python's
  decoder accepts it (strict mode, duplicate keys keep the last value), used where a
  concrete text is decoded. A number with a fraction or an exponent is kept as its
  lexeme, an escape \<open>\uXXXX\<close> beyond code point 255 is outside the model, and the
  fuel \<open>2 * length s + 2\<close> covers the two calls a nesting level costs per character.
  The parser raises \<open>JSONDecodeError\<close> on a text outside the grammar, and \<open>ValueError\<close>
  where \<open>int\<close> refuses an integer literal of more than \<open>int_max_str_digits\<close> digits
  (\<open>sys.int_info.default_max_str_digits\<close>); the recursion limit of the interpreter, which
  makes it raise \<open>RecursionError\<close> on a deep nesting, is not modelled.
\<close>

datatype json =
    JNull
  | JBool bool
  | JInt int
  | JFloat string
  | JString string
  | JArray "json list"
  | JObject "(string \<times> json) list"

definition json_ws :: "char \<Rightarrow> bool" where
  "json_ws c \<longleftrightarrow> c = CHR '' '' \<or> c = CHR 0x09 \<or> c = CHR 0x0A \<or> c = CHR 0x0D"

definition skip_ws :: "string \<Rightarrow> string" where
  "skip_ws s = dropWhile json_ws s"

definition is_digit :: "char \<Rightarrow> bool" where
  "is_digit c \<longleftrightarrow> 48 \<le> (of_char c :: nat) \<and> (of_char c :: nat) \<le> 57"

definition nat_of_digits :: "string \<Rightarrow> nat" where
  "nat_of_digits ds = foldl (\<lambda>n d. 10 * n + (of_char d - 48)) 0 ds"

definition hex_val :: "char \<Rightarrow> nat option" where
  "hex_val c =
     (let n = (of_char c :: nat)
      in if 48 \<le> n \<and> n \<le> 57 then Some (n - 48)
         else if 65 \<le> n \<and> n \<le> 70 then Some (n - 55)
         else if 97 \<le> n \<and> n \<le> 102 then Some (n - 87)
         else None)"

definition unicode_escape :: "string \<Rightarrow> char option" where
  "unicode_escape s =
     (case map hex_val (take 4 s) of
        [Some a, Some b, Some c, Some d] \<Rightarrow>
          if a = 0 \<and> b = 0 then Some (char_of (16 * c + d)) else None
      | _ \<Rightarrow> None)"

definition unescape :: "char \<Rightarrow> char option" where
  "unescape e =
     (if e = CHR 0x22 then Some (CHR 0x22)
      else if e = CHR 0x5C then Some (CHR 0x5C)
      else if e = CHR ''/'' then Some CHR ''/''
      else if e = CHR ''b'' then Some (CHR 0x08)
      else if e = CHR ''f'' then Some (CHR 0x0C)
      else if e = CHR ''n'' then Some (CHR 0x0A)
      else if e = CHR ''r'' then Some (CHR 0x0D)
      else if e = CHR ''t'' then Some (CHR 0x09)
      else None)"

text \<open>The body of a string literal, behind its opening quote.\<close>

fun scan_string :: "string \<Rightarrow> string \<Rightarrow> (string \<times> string) option" where
  "scan_string acc [] = None"
| "scan_string acc (c # cs) =
     (if c = CHR 0x22 then Some (rev acc, cs)
      else if c = CHR 0x5C then
        (case cs of
           [] \<Rightarrow> None
         | e # cs' \<Rightarrow>
             if e = CHR ''u''
             then (case unicode_escape cs' of
                     None \<Rightarrow> None
                   | Some ch \<Rightarrow> scan_string (ch # acc) (drop 4 cs'))
             else (case unescape e of
                     None \<Rightarrow> None
                   | Some ch \<Rightarrow> scan_string (ch # acc) cs'))
      else if (of_char c :: nat) < 32 then None
      else scan_string (c # acc) cs)"

text \<open>
  A number: \<open>-?(0|[1-9][0-9]*)(\.[0-9]+)?([eE][-+]?[0-9]+)?\<close>, the longest match at
  the head of the text.
\<close>

definition int_max_str_digits :: nat where
  "int_max_str_digits = 4300"

definition scan_number :: "string \<Rightarrow> (json \<times> string) loads_result" where
  "scan_number s =
     (let negative = (s \<noteq> [] \<and> hd s = CHR ''-'');
          s1 = (if negative then tl s else s);
          ip = (if s1 \<noteq> [] \<and> hd s1 = CHR ''0'' then ''0'' else takeWhile is_digit s1)
      in if ip = [] then JSONDecodeError
         else
           let s2 = drop (length ip) s1;
               frac = (case s2 of
                         c # r \<Rightarrow>
                           if c = CHR ''.'' \<and> takeWhile is_digit r \<noteq> []
                           then c # takeWhile is_digit r else []
                       | [] \<Rightarrow> []);
               s3 = drop (length frac) s2;
               ex = (case s3 of
                       c # r \<Rightarrow>
                         if c = CHR ''e'' \<or> c = CHR ''E''
                         then
                           (let sg = (if r \<noteq> [] \<and> (hd r = CHR ''+'' \<or> hd r = CHR ''-'')
                                      then [hd r] else []);
                                ds = takeWhile is_digit (drop (length sg) r)
                            in if ds \<noteq> [] then c # sg @ ds else [])
                         else []
                     | [] \<Rightarrow> []);
               s4 = drop (length ex) s3
           in if frac = [] \<and> ex = []
              then (if length ip > int_max_str_digits then OtherException ''ValueError''
                    else Parsed (JInt (if negative then - int (nat_of_digits ip)
                                       else int (nat_of_digits ip)), s4))
              else Parsed (JFloat ((if negative then ''-'' else []) @ ip @ frac @ ex), s4))"

fun parse_value :: "nat \<Rightarrow> string \<Rightarrow> (json \<times> string) loads_result"
  and parse_array :: "nat \<Rightarrow> json list \<Rightarrow> string \<Rightarrow> (json \<times> string) loads_result"
  and parse_object ::
    "nat \<Rightarrow> (string \<times> json) list \<Rightarrow> string \<Rightarrow> (json \<times> string) loads_result"
where
  "parse_value 0 s = JSONDecodeError"
| "parse_value (Suc f) s =
     (case s of
        [] \<Rightarrow> JSONDecodeError
      | c # r \<Rightarrow>
          if c = CHR 0x22 then
            (case scan_string [] r of
               None \<Rightarrow> JSONDecodeError
             | Some (str, rest) \<Rightarrow> Parsed (JString str, rest))
          else if c = CHR ''{'' then
            (case skip_ws r of
               [] \<Rightarrow> JSONDecodeError
             | d # r' \<Rightarrow>
                 if d = CHR ''}'' then Parsed (JObject [], r') else parse_object f [] (d # r'))
          else if c = CHR ''['' then
            (case skip_ws r of
               [] \<Rightarrow> JSONDecodeError
             | d # r' \<Rightarrow>
                 if d = CHR '']'' then Parsed (JArray [], r') else parse_array f [] (d # r'))
          else if startswith s ''null'' then Parsed (JNull, drop 4 s)
          else if startswith s ''true'' then Parsed (JBool True, drop 4 s)
          else if startswith s ''false'' then Parsed (JBool False, drop 5 s)
          else
            (case scan_number s of
               Parsed x \<Rightarrow> Parsed x
             | OtherException e \<Rightarrow> OtherException e
             | JSONDecodeError \<Rightarrow>
                 if startswith s ''NaN'' then Parsed (JFloat ''NaN'', drop 3 s)
                 else if startswith s ''Infinity'' then Parsed (JFloat ''Infinity'', drop 8 s)
                 else if startswith s ''-Infinity''
                 then Parsed (JFloat ''-Infinity'', drop 9 s)
                 else JSONDecodeError))"
| "parse_array 0 acc s = JSONDecodeError"
| "parse_array (Suc f) acc s =
     (case parse_value f s of
        JSONDecodeError \<Rightarrow> JSONDecodeError
      | OtherException e \<Rightarrow> OtherException e
      | Parsed (v, rest) \<Rightarrow>
          (case skip_ws rest of
             [] \<Rightarrow> JSONDecodeError
           | d # r \<Rightarrow>
               if d = CHR '']'' then Parsed (JArray (acc @ [v]), r)
               else if d = CHR '','' then parse_array f (acc @ [v]) (skip_ws r)
               else JSONDecodeError))"
| "parse_object 0 acc s = JSONDecodeError"
| "parse_object (Suc f) acc s =
     (case s of
        [] \<Rightarrow> JSONDecodeError
      | q # r \<Rightarrow>
          if q \<noteq> CHR 0x22 then JSONDecodeError
          else
            (case scan_string [] r of
               None \<Rightarrow> JSONDecodeError
             | Some (key, rest) \<Rightarrow>
                 (case skip_ws rest of
                    [] \<Rightarrow> JSONDecodeError
                  | colon # r2 \<Rightarrow>
                      if colon \<noteq> CHR '':'' then JSONDecodeError
                      else
                        (case parse_value f (skip_ws r2) of
                           JSONDecodeError \<Rightarrow> JSONDecodeError
                         | OtherException e \<Rightarrow> OtherException e
                         | Parsed (v, rest2) \<Rightarrow>
                             (case skip_ws rest2 of
                                [] \<Rightarrow> JSONDecodeError
                              | d # r3 \<Rightarrow>
                                  if d = CHR ''}''
                                  then Parsed (JObject (AList.update key v acc), r3)
                                  else if d = CHR '',''
                                  then parse_object f (AList.update key v acc) (skip_ws r3)
                                  else JSONDecodeError)))))"

definition json_loads :: "string \<Rightarrow> json loads_result" where
  "json_loads s =
     (case parse_value (2 * length s + 2) (skip_ws s) of
        JSONDecodeError \<Rightarrow> JSONDecodeError
      | OtherException e \<Rightarrow> OtherException e
      | Parsed (v, rest) \<Rightarrow> if skip_ws rest = [] then Parsed v else JSONDecodeError)"

section \<open>Properties of the cache\<close>

lemma keys_delete: "fst ` set (AList.delete k c) = fst ` set c - {k}"
  by (induction c) auto

lemma in_keys: "(a, b) \<in> set c \<Longrightarrow> a \<in> fst ` set c"
  by force

lemma length_keys_card: "distinct (map fst c) \<Longrightarrow> length c = card (fst ` set c)"
  using distinct_card[of "map fst c"] by simp

lemma remove_key_set: "distinct order \<Longrightarrow> set (remove_key k order) = set order - {k}"
  by (simp add: remove_key_def)

lemma remove_key_distinct: "distinct order \<Longrightarrow> distinct (remove_key k order)"
  by (simp add: remove_key_def)

lemma cache_inv_init: "cache_inv (InMemoryCache_init m d)"
  by (simp add: cache_inv_def InMemoryCache_init_def)

lemma evict_inv:
  assumes "distinct (map fst c)" "distinct order" "set order = fst ` set c"
    and "evict m c order = (c', order')"
  shows "distinct (map fst c') \<and> distinct order' \<and> set order' = fst ` set c'
         \<and> (int (length c') < m \<or> c' = [])"
  using assms
proof (induction m c order rule: evict.induct)
  case (1 m c)
  then show ?case by auto
next
  case (2 m c oldest_key rest)
  show ?case
  proof (cases "int (length c) \<ge> m")
    case True
    let ?c = "if oldest_key \<in> fst ` set c then AList.delete oldest_key c else c"
    have e: "evict m ?c rest = (c', order')" using 2(5) True by simp
    have d: "distinct (map fst ?c)" using 2(2) by (simp add: distinct_delete)
    have s: "set rest = fst ` set ?c" using 2(3,4) by (auto simp: keys_delete)
    show ?thesis using 2(1)[OF True d _ s e] 2(3) by simp
  next
    case False
    then show ?thesis using 2 by (auto intro: in_keys)
  qed
qed

lemma purge_inv: "cache_inv s \<Longrightarrow> cache_inv (purge k s)"
  by (auto simp: cache_inv_def purge_def distinct_delete remove_key_set remove_key_distinct keys_delete)

lemma fold_purge_inv: "cache_inv s \<Longrightarrow> cache_inv (fold purge ks s)"
  by (induction ks arbitrary: s) (auto simp: purge_inv)

lemma get_inv: "cache_inv s \<Longrightarrow> cache_inv (snd (InMemoryCache_get now key s))"
  by (auto simp: cache_inv_def InMemoryCache_get_def distinct_delete remove_key_set
      remove_key_distinct keys_delete split: option.splits dest: map_of_SomeD intro: in_keys)

lemma set_inv: "cache_inv s \<Longrightarrow> cache_inv (InMemoryCache_set now key v ttl s)"
proof -
  assume a: "cache_inv s"
  obtain c' order' where e: "evict (max_size s) (cache s) (access_order s) = (c', order')"
    by (cases "evict (max_size s) (cache s) (access_order s)")
  from evict_inv[OF _ _ _ e] a
  have "distinct (map fst c')" "distinct order'" "set order' = fst ` set c'"
    by (auto simp: cache_inv_def)
  then show ?thesis
    using e by (auto simp: cache_inv_def InMemoryCache_set_def distinct_update dom_update
        remove_key_set remove_key_distinct)
qed

lemma delete_inv: "cache_inv s \<Longrightarrow> cache_inv (snd (InMemoryCache_delete key s))"
  by (auto simp: cache_inv_def InMemoryCache_delete_def distinct_delete remove_key_set
      remove_key_distinct keys_delete)

lemma clear_inv: "cache_inv (InMemoryCache_clear s)"
  by (simp add: cache_inv_def InMemoryCache_clear_def)

lemma size_inv: "cache_inv s \<Longrightarrow> cache_inv (snd (InMemoryCache_size clock s))"
  by (simp add: InMemoryCache_size_def Let_def fold_purge_inv)

lemma apply_op_inv: "cache_inv s \<Longrightarrow> cache_inv (apply_op op s)"
  by (cases op) (simp_all add: get_inv set_inv delete_inv clear_inv size_inv)

lemma run_ops_inv: "cache_inv s \<Longrightarrow> cache_inv (run_ops ops s)"
  unfolding run_ops_def by (induction ops arbitrary: s) (simp_all add: apply_op_inv)

lemma length_update_le: "length (AList.update k v c) \<le> Suc (length c)"
  by (induction c) auto

lemma length_update_in: "k \<in> fst ` set c \<Longrightarrow> length (AList.update k v c) = length c"
  by (induction c) auto

lemma purge_fields [simp]:
  "max_size (purge k s) = max_size s" "default_ttl (purge k s) = default_ttl s"
  "length (cache (purge k s)) \<le> length (cache s)"
  by (simp_all add: purge_def length_delete_le)

lemma fold_purge_max_size [simp]: "max_size (fold purge ks s) = max_size s"
  by (induction ks arbitrary: s) simp_all

lemma fold_purge_length: "length (cache (fold purge ks s)) \<le> length (cache s)"
proof (induction ks arbitrary: s)
  case Nil
  then show ?case by simp
next
  case (Cons k ks)
  have "length (cache (fold purge ks (purge k s))) \<le> length (cache (purge k s))"
    by (rule Cons.IH)
  also have "\<dots> \<le> length (cache s)" by simp
  finally show ?case by simp
qed

lemma apply_op_max_size [simp]: "max_size (apply_op op s) = max_size s"
  by (cases op)
    (auto simp: InMemoryCache_get_def InMemoryCache_set_def InMemoryCache_delete_def
      InMemoryCache_clear_def InMemoryCache_size_def Let_def split: option.splits prod.splits)

lemma run_ops_max_size [simp]: "max_size (run_ops ops s) = max_size s"
  unfolding run_ops_def by (induction ops arbitrary: s) simp_all

lemma set_bound:
  assumes "cache_inv s" "1 \<le> max_size s"
  shows "int (length (cache (InMemoryCache_set now key v ttl s))) \<le> max_size s"
proof -
  obtain c' order' where e: "evict (max_size s) (cache s) (access_order s) = (c', order')"
    by (cases "evict (max_size s) (cache s) (access_order s)")
  from evict_inv[OF _ _ _ e] assms(1)
  have "int (length c') < max_size s \<or> c' = []"
    by (auto simp: cache_inv_def)
  then have "int (Suc (length c')) \<le> max_size s" using assms(2) by auto
  moreover have "length (AList.update key (CacheEntry_init now v (Some (case ttl of Some t \<Rightarrow> t | None \<Rightarrow> default_ttl s))) c') \<le> Suc (length c')"
    by (rule length_update_le)
  ultimately show ?thesis using e by (simp add: InMemoryCache_set_def)
qed

lemma apply_op_bound:
  assumes "cache_inv s" "1 \<le> max_size s" "int (length (cache s)) \<le> max_size s"
  shows "int (length (cache (apply_op op s))) \<le> max_size s"
proof (cases op)
  case (Get now key)
  have "length (AList.delete key (cache s)) \<le> length (cache s)" by (rule length_delete_le)
  then show ?thesis using assms(3) Get
    by (auto simp: InMemoryCache_get_def split: option.splits)
next
  case (Set now key v ttl)
  then show ?thesis using set_bound[OF assms(1,2)] by simp
next
  case (Delete key)
  have "length (AList.delete key (cache s)) \<le> length (cache s)" by (rule length_delete_le)
  then show ?thesis using assms(3) Delete
    by (auto simp: InMemoryCache_delete_def)
next
  case Clear
  then show ?thesis using assms(2) by (simp add: InMemoryCache_clear_def)
next
  case (Size clock)
  have "length (cache (fold purge (map fst (filter (\<lambda>(k, v). is_expired (clock k) v) (cache s))) s)) \<le> length (cache s)"
    by (rule fold_purge_length)
  then show ?thesis using assms(3) Size by (simp add: InMemoryCache_size_def Let_def)
qed

lemma run_ops_bound:
  assumes "cache_inv s" "1 \<le> max_size s" "int (length (cache s)) \<le> max_size s"
  shows "int (length (cache (run_ops ops s))) \<le> max_size s"
  using assms unfolding run_ops_def
proof (induction ops arbitrary: s)
  case Nil
  then show ?case by simp
next
  case (Cons op ops)
  have "int (length (cache (fold apply_op ops (apply_op op s)))) \<le> max_size (apply_op op s)"
    using Cons.prems by (intro Cons.IH apply_op_inv) (simp_all add: apply_op_bound)
  then show ?case by simp
qed

lemma evict_prefix:
  "evict m c order = (c', order') \<Longrightarrow>
     \<exists>n \<le> length order. order' = drop n order \<and>
        c' = filter (\<lambda>p. fst p \<notin> set (take n order)) c"
proof (induction m c order rule: evict.induct)
  case (1 m c)
  then show ?case by auto
next
  case (2 m c oldest_key rest)
  show ?case
  proof (cases "int (length c) \<ge> m")
    case True
    have eq: "(if oldest_key \<in> fst ` set c then AList.delete oldest_key c else c)
                = AList.delete oldest_key c" by simp
    have e: "evict m (AList.delete oldest_key c) rest = (c', order')"
      using 2(2) True by (simp del: evict.simps add: evict.simps(2)[of m c oldest_key rest] eq)
    from 2(1)[OF True] e eq obtain n where n: "n \<le> length rest" "order' = drop n rest"
      "c' = filter (\<lambda>p. fst p \<notin> set (take n rest)) (AList.delete oldest_key c)"
      by auto
    have "c' = filter (\<lambda>p. fst p \<notin> set (take (Suc n) (oldest_key # rest))) c"
      unfolding n(3) AList.delete_eq by (auto intro: filter_cong)
    then show ?thesis using n(1,2) by (intro exI[of _ "Suc n"]) simp
  next
    case False
    then have "c' = c" "order' = oldest_key # rest" using 2(2) by auto
    then show ?thesis by (intro exI[of _ 0]) simp
  qed
qed

lemma apply_op_default_ttl [simp]: "default_ttl (apply_op op s) = default_ttl s"
  by (cases op)
    (auto simp: InMemoryCache_get_def InMemoryCache_set_def InMemoryCache_delete_def
      InMemoryCache_clear_def InMemoryCache_size_def Let_def purge_def
      split: option.splits prod.splits intro: fold_invariant)

lemma run_ops_default_ttl [simp]: "default_ttl (run_ops ops s) = default_ttl s"
  unfolding run_ops_def by (induction ops arbitrary: s) simp_all

lemma fold_purge_other:
  "k \<notin> set ks \<Longrightarrow> map_of (cache (fold purge ks s)) k = map_of (cache s) k"
  by (induction ks arbitrary: s) (auto simp: purge_def)

lemma holds_forever_get:
  assumes "holds_forever k v s"
  shows "holds_forever k v (snd (InMemoryCache_get now key s))"
proof -
  from assms obtain e where e: "map_of (cache s) k = Some e" "entry_value e = v"
    "expires_at e = None" and inv: "cache_inv s"
    by (auto simp: holds_forever_def)
  have inv': "cache_inv (snd (InMemoryCache_get now key s))" using inv by (rule get_inv)
  have "map_of (cache (snd (InMemoryCache_get now key s))) k = Some e"
  proof (cases "key = k")
    case True
    then show ?thesis using e by (simp add: InMemoryCache_get_def is_expired_def)
  next
    case False
    then show ?thesis using e
      by (auto simp: InMemoryCache_get_def split: option.splits)
  qed
  then show ?thesis using inv' e by (auto simp: holds_forever_def)
qed

lemma holds_forever_size:
  assumes "holds_forever k v s"
  shows "holds_forever k v (snd (InMemoryCache_size clock s))"
proof -
  from assms obtain e where e: "map_of (cache s) k = Some e" "entry_value e = v"
    "expires_at e = None" and inv: "cache_inv s"
    by (auto simp: holds_forever_def)
  let ?ks = "map fst (filter (\<lambda>(k, v). is_expired (clock k) v) (cache s))"
  have "k \<notin> set ?ks"
  proof
    assume "k \<in> set ?ks"
    then obtain w where w: "(k, w) \<in> set (cache s)" "is_expired (clock k) w" by auto
    from inv have "distinct (map fst (cache s))" by (simp add: cache_inv_def)
    with w(1) have "map_of (cache s) k = Some w" by simp
    with e w(2) show False by (simp add: is_expired_def)
  qed
  then have "map_of (cache (fold purge ?ks s)) k = Some e"
    using e(1) by (simp add: fold_purge_other)
  moreover have "cache_inv (snd (InMemoryCache_size clock s))" using inv by (rule size_inv)
  ultimately show ?thesis using e(2,3)
    by (auto simp: holds_forever_def InMemoryCache_size_def Let_def)
qed

lemma holds_forever_run:
  assumes "holds_forever k v s" "\<forall>op \<in> set later. reads_only op"
  shows "holds_forever k v (run_ops later s)"
  using assms unfolding run_ops_def
proof (induction later arbitrary: s)
  case Nil
  then show ?case by simp
next
  case (Cons op later)
  from Cons.prems(2) have r: "reads_only op" by simp
  have "holds_forever k v (apply_op op s)"
    using r Cons.prems(1) by (cases op) (simp_all add: holds_forever_get holds_forever_size)
  then show ?case using Cons by simp
qed

text \<open>
  C2. Eviction follows the last touch by \<open>get\<close> or \<open>set\<close>, not the insertion order. A cache
  of \<open>max_size = 2\<close> runs \<open>set(a,1); set(b,2); get(a); set(c,3)\<close> with three distinct keys;
  no entry has expired when it is looked up. Then \<open>b\<close> has been evicted, \<open>get(b)\<close> is
  empty, and \<open>get(a)\<close> and \<open>get(c)\<close> return their values.
\<close>

theorem lru_eviction_example:
  assumes "distinct [a, b, c]"
    and "d = 0 \<or> (t3 \<le> t1 + d * 1000000 \<and> t6 \<le> t1 + d * 1000000 \<and> t7 \<le> t4 + d * 1000000)"
  shows "let s4 = run_ops [Set t1 a v1 None, Set t2 b v2 None, Get t3 a, Set t4 c v3 None]
                    (InMemoryCache_init 2 d);
             (rb, s5) = InMemoryCache_get t5 b s4;
             (ra, s6) = InMemoryCache_get t6 a s5;
             (rc, s7) = InMemoryCache_get t7 c s6
         in b \<notin> fst ` set (cache s4) \<and> rb = None \<and> ra = Some v1 \<and> rc = Some v3"
  using assms
  by (auto simp: run_ops_def InMemoryCache_init_def InMemoryCache_set_def InMemoryCache_get_def
      CacheEntry_init_def is_expired_def remove_key_def Let_def)

theorem lru_eviction_example_witness:
  "distinct [''a'', ''b'', ''c'']
   \<and> ((3600::int) = 0 \<or> ((2::int) \<le> 0 + 3600 * 1000000 \<and> (5::int) \<le> 0 + 3600 * 1000000
                          \<and> (6::int) \<le> 3 + 3600 * 1000000))
   \<and> (let s4 = run_ops [Set 0 ''a'' (1::nat) None, Set 1 ''b'' 2 None, Get 2 ''a'',
                         Set 3 ''c'' 3 None] (InMemoryCache_init 2 3600);
           (rb, s5) = InMemoryCache_get 4 ''b'' s4;
           (ra, s6) = InMemoryCache_get 5 ''a'' s5;
           (rc, s7) = InMemoryCache_get 6 ''c'' s6
       in ''b'' \<notin> fst ` set (cache s4) \<and> rb = None \<and> ra = Some 1 \<and> rc = Some 3)"
proof -
  have h1: "distinct [''a'', ''b'', ''c'']" by simp
  have h2: "(3600::int) = 0 \<or> ((2::int) \<le> 0 + 3600 * 1000000 \<and> (5::int) \<le> 0 + 3600 * 1000000
                          \<and> (6::int) \<le> 3 + 3600 * 1000000)" by simp
  show ?thesis using h1 h2 lru_eviction_example [OF h1 h2, of 1 1 2 3 4] by blast
qed

text \<open>
  C3, for a cache constructed with \<open>max_size \<ge> 1\<close>. After every finite sequence of
  \<open>get\<close>, \<open>set\<close>, \<open>delete\<close>, \<open>clear\<close> and \<open>size\<close> operations the dictionary holds
  at most \<open>max_size\<close> entries, and the eviction loop of a following \<open>set\<close> leaves fewer
  than \<open>max_size\<close> entries before the new entry is inserted; what it removes are the
  entries of the first keys of the recency list, the least recently used ones.
\<close>

theorem cache_size_bounded:
  assumes "1 \<le> m"
  shows "int (length (cache (run_ops ops (InMemoryCache_init m d)))) \<le> m
       \<and> int (length (fst (evict m (cache (run_ops ops (InMemoryCache_init m d)))
                              (access_order (run_ops ops (InMemoryCache_init m d)))))) < m
       \<and> (\<exists>n. evict m (cache (run_ops ops (InMemoryCache_init m d)))
                       (access_order (run_ops ops (InMemoryCache_init m d)))
                = (filter (\<lambda>p. fst p \<notin> set (take n (access_order
                                     (run_ops ops (InMemoryCache_init m d)))))
                     (cache (run_ops ops (InMemoryCache_init m d))),
                   drop n (access_order (run_ops ops (InMemoryCache_init m d)))))"
proof -
  let ?s = "run_ops ops (InMemoryCache_init m d :: 'a InMemoryCache)"
  have inv: "cache_inv ?s" by (simp add: run_ops_inv cache_inv_init)
  have "int (length (cache ?s)) \<le> max_size (InMemoryCache_init m d :: 'a InMemoryCache)"
    using assms by (intro run_ops_bound cache_inv_init) (simp_all add: InMemoryCache_init_def)
  then have b: "int (length (cache ?s)) \<le> m" by (simp add: InMemoryCache_init_def)
  obtain c order where e: "evict m (cache ?s) (access_order ?s) = (c, order)"
    by (cases "evict m (cache ?s) (access_order ?s)")
  from evict_inv[OF _ _ _ e] inv have "int (length c) < m \<or> c = []"
    by (auto simp: cache_inv_def)
  then have l: "int (length c) < m" using assms by auto
  from evict_prefix[OF e] obtain n where
    "order = drop n (access_order ?s)"
    "c = filter (\<lambda>p. fst p \<notin> set (take n (access_order ?s))) (cache ?s)"
    by blast
  then have "\<exists>n. evict m (cache ?s) (access_order ?s)
               = (filter (\<lambda>p. fst p \<notin> set (take n (access_order ?s))) (cache ?s),
                  drop n (access_order ?s))"
    using e by blast
  then show ?thesis using b l e by simp
qed

theorem cache_size_bounded_witness:
  "(1::int) \<le> 2
   \<and> int (length (cache (run_ops [Set 0 ''a'' (1::nat) None, Set 1 ''b'' 2 None, Get 2 ''a'',
                                   Set 3 ''c'' 3 None, Size (\<lambda>k. 4), Delete ''a'', Set 5 ''d'' 4 None]
                                  (InMemoryCache_init 2 3600)))) \<le> 2"
proof -
  have h: "(1::int) \<le> 2" by simp
  show ?thesis using h cache_size_bounded [OF h] by blast
qed

text \<open>
  C3 as stated, for every \<open>max_size\<close>, fails: a cache constructed with \<open>max_size = 0\<close>
  holds one entry after one \<open>set\<close>.
\<close>

theorem cache_size_bound_counterexample:
  "\<not> int (length (cache (run_ops [Set 0 ''a'' (1::nat) None] (InMemoryCache_init 0 3600)))) \<le> 0"
  by (simp add: run_ops_def InMemoryCache_init_def InMemoryCache_set_def)

text \<open>
  C8. A \<open>set\<close> with \<open>ttl = 0\<close>, or without a TTL on a cache whose default TTL is \<open>0\<close>,
  stores an entry whose \<open>expires_at\<close> is \<open>None\<close>. Whatever \<open>get\<close> and \<open>size\<close>
  operations follow, at whatever clock readings, a later \<open>get\<close> of the key returns the
  value and \<open>size\<close> keeps and counts the entry.
\<close>

theorem zero_ttl_never_expires:
  assumes "ttl = Some 0 \<or> (ttl = None \<and> d = 0)"
    and "\<forall>op \<in> set later. reads_only op"
  shows "let s = InMemoryCache_set tset k v ttl (run_ops earlier (InMemoryCache_init m d));
             s' = run_ops later s
         in map_of (cache s) k = Some \<lparr> entry_value = v, created_at = tset, expires_at = None \<rparr>
          \<and> fst (InMemoryCache_get t k s') = Some v
          \<and> k \<in> fst ` set (cache (snd (InMemoryCache_size clock s')))
          \<and> 1 \<le> fst (InMemoryCache_size clock s')"
proof -
  let ?pre = "run_ops earlier (InMemoryCache_init m d :: 'a InMemoryCache)"
  let ?s = "InMemoryCache_set tset k v ttl ?pre"
  let ?s' = "run_ops later ?s"
  let ?e = "\<lparr> entry_value = v, created_at = tset, expires_at = None \<rparr>"
  have d: "default_ttl ?pre = d" by (simp add: InMemoryCache_init_def)
  have m1: "map_of (cache ?s) k = Some ?e"
    using assms(1) d
    by (auto simp: InMemoryCache_set_def CacheEntry_init_def update_conv' split: prod.splits)
  have "cache_inv ?s" by (intro set_inv run_ops_inv cache_inv_init)
  with m1 have "holds_forever k v ?s" by (simp add: holds_forever_def)
  then have h: "holds_forever k v ?s'" using assms(2) by (rule holds_forever_run)
  then have g: "fst (InMemoryCache_get t k ?s') = Some v"
    by (auto simp: holds_forever_def InMemoryCache_get_def is_expired_def)
  from h have "holds_forever k v (snd (InMemoryCache_size clock ?s'))"
    by (rule holds_forever_size)
  then have "map_of (cache (snd (InMemoryCache_size clock ?s'))) k \<noteq> None"
    by (auto simp: holds_forever_def)
  then have k: "k \<in> fst ` set (cache (snd (InMemoryCache_size clock ?s')))"
    by (simp add: map_of_eq_None_iff)
  then have "cache (snd (InMemoryCache_size clock ?s')) \<noteq> []" by auto
  then have "1 \<le> fst (InMemoryCache_size clock ?s')"
    by (cases "cache (snd (InMemoryCache_size clock ?s'))")
       (simp_all add: InMemoryCache_size_def Let_def)
  with m1 g k show ?thesis by (simp add: Let_def)
qed

theorem zero_ttl_never_expires_witness:
  "(let s = InMemoryCache_set 7 ''k'' (42::nat) (Some 0)
                 (run_ops [Set 0 ''x'' 1 None] (InMemoryCache_init 2 3600));
           s' = run_ops [Get 5000000000000 ''x'', Size (\<lambda>k. 9000000000000), Get 1 ''k''] s
       in map_of (cache s) ''k'' = Some \<lparr> entry_value = 42, created_at = 7, expires_at = None \<rparr>
        \<and> fst (InMemoryCache_get 10000000000000 ''k'' s') = Some 42
        \<and> ''k'' \<in> fst ` set (cache (snd (InMemoryCache_size (\<lambda>k. 10000000000000) s')))
        \<and> 1 \<le> fst (InMemoryCache_size (\<lambda>k. 10000000000000) s'))"
proof -
  have h1: "Some (0::int) = Some 0 \<or> (Some (0::int) = None \<and> (3600::int) = 0)" by simp
  have h2: "\<forall>op \<in> set [Get 5000000000000 ''x'', Size (\<lambda>k. 9000000000000), Get 1 ''k'' :: nat cache_op]. reads_only op"
    by simp
  note w = zero_ttl_never_expires [OF h1 h2, of 7 "''k''" 42 "[Set 0 ''x'' 1 None]" 2
      10000000000000 "\<lambda>k. 10000000000000"]
  show ?thesis using w by blast
qed

text \<open>
  C9. A reachable cache holds exactly \<open>max_size\<close> entries, and \<open>set\<close> is called with a
  key that is present and is not the least recently used one. Then the least recently
  used key, which was present, is removed, every other key stays, and the cache holds one
  entry less than before.
\<close>

theorem overwrite_in_full_cache_evicts:
  assumes "s = run_ops ops (InMemoryCache_init m d)"
    and "int (length (cache s)) = max_size s"
    and "key \<in> fst ` set (cache s)"
    and "key \<noteq> hd (access_order s)"
  shows "hd (access_order s) \<in> fst ` set (cache s)
       \<and> fst ` set (cache (InMemoryCache_set now key v ttl s))
           = fst ` set (cache s) - {hd (access_order s)}
       \<and> length (cache (InMemoryCache_set now key v ttl s)) = length (cache s) - 1"
proof -
  have inv: "cache_inv s" unfolding assms(1) by (intro run_ops_inv cache_inv_init)
  then have dk: "distinct (map fst (cache s))" and so: "set (access_order s) = fst ` set (cache s)"
    by (simp_all add: cache_inv_def)
  from assms(3) so obtain lru rest where o: "access_order s = lru # rest"
    by (cases "access_order s") auto
  have lru_in: "lru \<in> fst ` set (cache s)" using so o by auto
  let ?c = "AList.delete lru (cache s)"
  have keys: "fst ` set ?c = fst ` set (cache s) - {lru}" by (rule keys_delete)
  have "length (cache s) = card (fst ` set (cache s))" using dk by (rule length_keys_card)
  moreover have "length ?c = card (fst ` set ?c)"
    using dk by (intro length_keys_card distinct_delete)
  ultimately have len: "length ?c = length (cache s) - 1" using keys lru_in by simp
  have pos: "0 < length (cache s)" using assms(3) by (cases "cache s") auto
  have lt: "\<not> max_size s \<le> int (length ?c)" using len assms(2) pos by linarith
  have ev: "evict (max_size s) (cache s) (access_order s) = (?c, rest)"
    using o assms(2) lru_in lt by (cases rest) simp_all
  have kin: "key \<in> fst ` set ?c" using keys assms(3,4) o by simp
  have "cache (InMemoryCache_set now key v ttl s)
          = AList.update key (CacheEntry_init now v (Some (case ttl of Some t \<Rightarrow> t | None \<Rightarrow> default_ttl s))) ?c"
    using ev by (simp add: InMemoryCache_set_def)
  then show ?thesis using kin keys len lru_in o
    by (auto simp: dom_update length_update_in)
qed

theorem overwrite_in_full_cache_evicts_witness:
  "(let s = run_ops [Set 0 ''a'' (1::nat) None, Set 1 ''b'' 2 None] (InMemoryCache_init 2 3600)
    in int (length (cache s)) = max_size s
     \<and> ''b'' \<in> fst ` set (cache s)
     \<and> ''b'' \<noteq> hd (access_order s)
     \<and> hd (access_order s) \<in> fst ` set (cache s)
     \<and> fst ` set (cache (InMemoryCache_set 2 ''b'' 5 None s))
          = fst ` set (cache s) - {hd (access_order s)}
     \<and> length (cache (InMemoryCache_set 2 ''b'' 5 None s)) = length (cache s) - 1)"
proof -
  let ?s = "run_ops [Set 0 ''a'' (1::nat) None, Set 1 ''b'' 2 None] (InMemoryCache_init 2 3600)"
  have h2: "int (length (cache ?s)) = max_size ?s" by code_simp
  have h3: "''b'' \<in> fst ` set (cache ?s)" by code_simp
  have h4: "''b'' \<noteq> hd (access_order ?s)" by code_simp
  note w = overwrite_in_full_cache_evicts [OF refl h2 h3 h4, of 2 5 None]
  show ?thesis unfolding Let_def using h2 h3 h4 w by (intro conjI) blast+
qed

section \<open>Properties of the recipe key\<close>

lemma isspace_lower_char: "isspace (lower_char c) = isspace c"
proof (cases "(65 \<le> (of_char c :: nat) \<and> (of_char c :: nat) \<le> 90)
              \<or> (192 \<le> (of_char c :: nat) \<and> (of_char c :: nat) \<le> 222 \<and> (of_char c :: nat) \<noteq> 215)")
  case False
  then have "lower_char c = c" unfolding lower_char_def Let_def by (rule if_not_P)
  then show ?thesis by simp
next
  case True
  define n where "n = (of_char c :: nat)"
  from True have r: "(65 \<le> n \<and> n \<le> 90) \<or> (192 \<le> n \<and> n \<le> 222)" by (auto simp: n_def)
  from True have l: "lower_char c = char_of (n + 32)"
    unfolding lower_char_def Let_def n_def by (rule if_P)
  from r have lt: "n + 32 < 256" by arith
  have o: "(of_char (lower_char c) :: nat) = n + 32" unfolding l using lt by simp
  have a: "\<not> isspace c" unfolding isspace_def n_def[symmetric] using r by simp arith
  have b: "\<not> isspace (lower_char c)" unfolding isspace_def o using r by simp arith
  show ?thesis using a b by simp
qed


lemma all_space_lower: "list_all isspace ws \<Longrightarrow> list_all isspace (lower ws)"
  by (simp add: lower_def list_all_iff isspace_lower_char)

lemma lstrip_pad: "list_all isspace ws \<Longrightarrow> lstrip (ws @ text) = lstrip text"
  by (simp add: lstrip_def list_all_iff dropWhile_append2)

lemma rstrip_pad: "list_all isspace ws \<Longrightarrow> rstrip (text @ ws) = rstrip text"
proof -
  assume "list_all isspace ws"
  then have "dropWhile isspace (rev ws @ rev text) = dropWhile isspace (rev text)"
    by (intro dropWhile_append2) (simp add: list_all_iff)
  then show ?thesis by (simp add: rstrip_def)
qed

lemma strip_pad:
  assumes "list_all isspace l" "list_all isspace r"
  shows "strip (l @ m @ r) = strip m"
proof (cases "list_all isspace m")
  case True
  then have "list_all isspace (m @ r)" using assms(2) by simp
  then have "lstrip (m @ r) = []" "lstrip m = []" using True
    by (simp_all add: lstrip_def list_all_iff)
  then show ?thesis using assms(1) by (simp add: strip_def lstrip_pad)
next
  case False
  then obtain x where "x \<in> set m" "\<not> isspace x" by (auto simp: list_all_iff)
  then have "lstrip (m @ r) = lstrip m @ r" by (simp add: lstrip_def dropWhile_append1)
  then show ?thesis using assms by (simp add: strip_def lstrip_pad rstrip_pad)
qed

lemma sort_permutation: "mset rs1 = mset rs2 \<Longrightarrow> sort rs1 = sort rs2"
  by (rule properties_for_sort) simp_all

lemma sort_two: "sort [''b'', ''c''] = [''b'', ''c'']"
  by code_simp

text \<open>
  C4. For every digest function, dish name, servings count and restriction list, the key
  does not change when the restrictions are permuted, when whitespace is added or removed
  at either end of the name, or when the case of the name's characters changes: names
  that are the same up to case between their leading and trailing whitespace, with
  restriction lists that are permutations of each other, have the same key.
\<close>

theorem recipe_key_normalised:
  assumes "list_all isspace l1" "list_all isspace r1" "list_all isspace l2" "list_all isspace r2"
    and "lower m1 = lower m2"
    and "mset rs1 = mset rs2"
  shows "generate_recipe_key md5_hex (l1 @ m1 @ r1) s (Some rs1)
       = generate_recipe_key md5_hex (l2 @ m2 @ r2) s (Some rs2)"
proof -
  have "strip (lower (l1 @ m1 @ r1)) = strip (lower m1)"
    using assms(1,2) by (simp add: lower_def strip_pad all_space_lower[unfolded lower_def])
  moreover have "strip (lower (l2 @ m2 @ r2)) = strip (lower m2)"
    using assms(3,4) by (simp add: lower_def strip_pad all_space_lower[unfolded lower_def])
  moreover have "sort rs1 = sort rs2" using assms(6) by (rule sort_permutation)
  moreover have "rs1 = [] \<longleftrightarrow> rs2 = []" using assms(6) by (metis mset_zero_iff)
  ultimately show ?thesis using assms(5)
    by (simp add: generate_recipe_key_def key_string_def)
qed

theorem recipe_key_normalised_witness:
  "generate_recipe_key (\<lambda>s. s) ''Pad Thai'' 2 (Some [''Vegan'', ''Gluten-Free''])
     = generate_recipe_key (\<lambda>s. s) '' pad thai '' 2 (Some [''Gluten-Free'', ''Vegan''])"
proof -
  have h1: "list_all isspace []" by simp
  have h2: "list_all isspace '' ''" by code_simp
  have h5: "lower ''Pad Thai'' = lower ''pad thai''" by code_simp
  have h6: "mset [''Vegan'', ''Gluten-Free''] = mset [''Gluten-Free'', ''Vegan'']" by simp
  show ?thesis
    using recipe_key_normalised [OF h1 h1 h2 h2 h5 h6, of "\<lambda>s. s" 2] by simp
qed

text \<open>
  C10. The joiner between restrictions is the delimiter between the fields, so distinct
  restriction lists collide: for every digest function, name and servings count the one
  restriction \<open>b_c\<close> and the two restrictions \<open>b\<close>, \<open>c\<close> have the same key.
\<close>

theorem recipe_key_collision:
  "[''b_c''] \<noteq> [''b'', ''c'']
   \<and> generate_recipe_key md5_hex n s (Some [''b_c''])
       = generate_recipe_key md5_hex n s (Some [''b'', ''c''])"
  by (simp add: generate_recipe_key_def key_string_def sort_two)

section \<open>Properties of the decoder\<close>

lemma isspace_not_comma: "isspace x \<Longrightarrow> x \<noteq> CHR '',''"
  by (auto simp: isspace_def)

lemma remove_trailing_commas_group:
  "\<forall>x \<in> set ws. isspace x \<Longrightarrow> d = CHR ''}'' \<or> d = CHR '']'' \<Longrightarrow>
     remove_trailing_commas (ws @ d # rest) = ws @ d # remove_trailing_commas rest"
  by (induction ws) (auto simp: isspace_not_comma)

lemma match_group_closer:
  "match_group cs = (if closer_follows cs
     then Some (takeWhile isspace cs @ [hd (dropWhile isspace cs)], tl (dropWhile isspace cs))
     else None)"
proof -
  define xs where "xs = dropWhile isspace cs"
  show ?thesis
    unfolding match_group_def closer_follows_def xs_def[symmetric]
    by (cases xs) simp_all
qed

lemma remove_trailing_commas_step:
  "remove_trailing_commas (c # cs) =
     (if c = CHR '','' \<and> closer_follows cs then remove_trailing_commas cs
      else c # remove_trailing_commas cs)"
proof (cases "c = CHR '','' \<and> closer_follows cs")
  case False
  then show ?thesis by (auto simp: match_group_closer)
next
  case True
  then obtain d rest where dr: "dropWhile isspace cs = d # rest" "d = CHR ''}'' \<or> d = CHR '']''"
    by (auto simp: closer_follows_def split: list.splits)
  have cs: "cs = takeWhile isspace cs @ d # rest"
    using dr(1) takeWhile_dropWhile_id[of isspace cs] by simp
  have ws: "\<forall>x \<in> set (takeWhile isspace cs). isspace x" by (auto dest: set_takeWhileD)
  have "remove_trailing_commas (takeWhile isspace cs @ d # rest)
          = takeWhile isspace cs @ d # remove_trailing_commas rest"
    using ws dr(2) by (rule remove_trailing_commas_group)
  then have "remove_trailing_commas cs = takeWhile isspace cs @ d # remove_trailing_commas rest"
    using cs by simp
  then show ?thesis using True dr by (simp add: match_group_closer)
qed

lemma remove_trailing_commas_id:
  "\<not> has_trailing_comma s \<Longrightarrow> remove_trailing_commas s = s"
  by (induction s) (auto simp: remove_trailing_commas_step simp del: remove_trailing_commas.simps(2))

lemma lstrip_idem: "lstrip (lstrip s) = lstrip s"
  by (simp add: lstrip_def)

lemma rstrip_idem: "rstrip (rstrip s) = rstrip s"
  by (simp add: rstrip_def)

lemma rstrip_prefix: "\<exists>ws. s = rstrip s @ ws"
proof -
  have "rev (dropWhile isspace (rev s)) @ rev (takeWhile isspace (rev s))
          = rev (takeWhile isspace (rev s) @ dropWhile isspace (rev s))"
    by (simp only: rev_append)
  also have "\<dots> = s" by (simp only: takeWhile_dropWhile_id rev_rev_ident)
  finally have "s = rstrip s @ rev (takeWhile isspace (rev s))" by (simp only: rstrip_def)
  then show ?thesis ..
qed

lemma startswith_iff: "startswith s p \<longleftrightarrow> (\<exists>r. s = p @ r)"
  unfolding startswith_def by (metis append_take_drop_id append_eq_conv_conj)

lemma lstrip_rstrip_lstrip: "lstrip (rstrip (lstrip s)) = rstrip (lstrip s)"
proof (cases "rstrip (lstrip s) = []")
  case True
  then show ?thesis by (simp add: lstrip_def)
next
  case False
  obtain ws where ws: "lstrip s = rstrip (lstrip s) @ ws" using rstrip_prefix by blast
  from False ws have ne: "lstrip s \<noteq> []" by auto
  then have "\<not> isspace (hd (lstrip s))" unfolding lstrip_def by (rule hd_dropWhile)
  moreover have "hd (lstrip s) = hd (rstrip (lstrip s))" using False ws by (metis hd_append2)
  ultimately have "\<not> isspace (hd (rstrip (lstrip s)))" by simp
  then show ?thesis using False by (simp add: lstrip_def dropWhile_eq_self_iff)
qed

lemma strip_idem: "strip (strip s) = strip s"
  by (simp add: strip_def lstrip_rstrip_lstrip rstrip_idem)


lemma parse_response_error:
  "parse_response loads s = Inl (ServiceError e) \<Longrightarrow>
     e = \<lparr> message = ''Failed to parse recipe data from AI.'', error_code = ''JSON_PARSE_ERROR'' \<rparr>"
  by (auto simp: parse_response_def Let_def split: option.splits loads_result.splits)

lemma close_truncated_balanced:
  "count_char CHR ''{'' s \<le> count_char CHR ''}'' s \<Longrightarrow>
   count_char CHR ''['' s \<le> count_char CHR '']'' s \<Longrightarrow> close_truncated s = s"
  by (simp add: close_truncated_def Let_def)

lemma strip_fences_none:
  "\<not> startswith s ''```'' \<Longrightarrow> \<not> endswith s ''```'' \<Longrightarrow> strip_fences s = s"
proof -
  assume a: "\<not> startswith s ''```''" and b: "\<not> endswith s ''```''"
  have "\<not> startswith s ''```json''"
  proof
    assume "startswith s ''```json''"
    then obtain r where "s = ''```json'' @ r" unfolding startswith_iff ..
    then have "s = ''```'' @ (''json'' @ r)" by simp
    then have "startswith s ''```''" unfolding startswith_iff ..
    with a show False ..
  qed
  with a b show ?thesis by (simp add: strip_fences_def)
qed

lemma repair_text_clean:
  assumes "\<not> startswith (strip s) ''```''" "\<not> endswith (strip s) ''```''"
    and "\<not> has_trailing_comma (strip s)"
    and "count_char CHR ''{'' (strip s) \<le> count_char CHR ''}'' (strip s)"
    and "count_char CHR ''['' (strip s) \<le> count_char CHR '']'' (strip s)"
  shows "repair_text s = strip s"
  using assms
  by (simp add: repair_text_def strip_fences_none strip_idem remove_trailing_commas_id
      close_truncated_balanced)








text \<open>
  C1 as stated fails: the repairs are textual and do not look at string literals. The
  valid text \<open>{"a":",}"}\<close> loses the comma inside its string, and the valid text
  \<open>["{"]\<close> is taken for a truncated one and decodes to the empty array.
\<close>

theorem valid_json_unchanged_counterexample:
  \<open>json_loads ''{"a":",}"}'' = Parsed (JObject [(''a'', JString '',}'')])
   \<and> parse_response json_loads ''{"a":",}"}'' = Inr (JObject [(''a'', JString ''}'')])
   \<and> json_loads ''["{"]'' = Parsed (JArray [JString ''{''])
   \<and> parse_response json_loads ''["{"]'' = Inr (JArray [])\<close>
  by code_simp

text \<open>
  C1, amended. A text is trimmed of its surrounding whitespace. When the trimmed text
  does not begin or end with a fence, holds no comma followed by optional whitespace and a
  closing brace or bracket, has no more opening than closing braces and no more opening
  than closing brackets (string literals included in all three), and the parser accepts
  it, then the decoder returns exactly the parser's value for the trimmed text.
\<close>

theorem clean_text_decodes_as_parsed:
  assumes "\<not> startswith (strip s) ''```''" and "\<not> endswith (strip s) ''```''"
    and "\<not> has_trailing_comma (strip s)"
    and "count_char CHR ''{'' (strip s) \<le> count_char CHR ''}'' (strip s)"
    and "count_char CHR ''['' (strip s) \<le> count_char CHR '']'' (strip s)"
    and "loads (strip s) = Parsed v"
  shows "parse_response loads s = Inr v"
  using assms(6) repair_text_clean[OF assms(1-5)]
  by (simp add: parse_response_def)

theorem clean_text_decodes_as_parsed_witness:
  \<open>parse_response json_loads '' {"a": [1, 2], "b": "x"} ''
     = Inr (JObject [(''a'', JArray [JInt 1, JInt 2]), (''b'', JString ''x'')])\<close>
proof -
  let ?s = \<open>'' {"a": [1, 2], "b": "x"} ''\<close>
  have h1: "\<not> startswith (strip ?s) ''```''" by code_simp
  have h2: "\<not> endswith (strip ?s) ''```''" by code_simp
  have h3: "\<not> has_trailing_comma (strip ?s)" by code_simp
  have h4: "count_char CHR ''{'' (strip ?s) \<le> count_char CHR ''}'' (strip ?s)" by code_simp
  have h5: "count_char CHR ''['' (strip ?s) \<le> count_char CHR '']'' (strip ?s)" by code_simp
  have h6: "json_loads (strip ?s)
              = Parsed (JObject [(''a'', JArray [JInt 1, JInt 2]), (''b'', JString ''x'')])"
    by code_simp
  show ?thesis by (rule clean_text_decodes_as_parsed [where loads = json_loads, OF h1 h2 h3 h4 h5 h6])
qed




text \<open>
  C6 as stated fails: the error of the decoder is the same for the raw texts \<open>@\<close> and
  \<open>#\<close>, and neither character occurs in its message or its code.
\<close>

theorem decode_error_counterexample:
  "parse_response json_loads ''@''
     = Inl (ServiceError \<lparr> message = ''Failed to parse recipe data from AI.'',
                          error_code = ''JSON_PARSE_ERROR'' \<rparr>)
   \<and> parse_response json_loads ''#''
     = Inl (ServiceError \<lparr> message = ''Failed to parse recipe data from AI.'',
                          error_code = ''JSON_PARSE_ERROR'' \<rparr>)
   \<and> CHR ''@'' \<notin> set ''Failed to parse recipe data from AI.''
   \<and> CHR ''@'' \<notin> set ''JSON_PARSE_ERROR''
   \<and> CHR ''#'' \<notin> set ''Failed to parse recipe data from AI.''
   \<and> CHR ''#'' \<notin> set ''JSON_PARSE_ERROR''"
  by code_simp

text \<open>
  C6, amended. Whenever the decoder raises its error, the error carries the fixed message
  \<open>Failed to parse recipe data from AI.\<close> and the code \<open>JSON_PARSE_ERROR\<close>, whatever
  the raw text was.
\<close>

theorem decode_error_fixed:
  "parse_response loads s = Inl (ServiceError e) \<Longrightarrow>
     message e = ''Failed to parse recipe data from AI.'' \<and> error_code e = ''JSON_PARSE_ERROR''"
  by (auto dest: parse_response_error)

theorem decode_error_fixed_witness:
  "parse_response json_loads ''@''
     = Inl (ServiceError \<lparr> message = ''Failed to parse recipe data from AI.'',
                          error_code = ''JSON_PARSE_ERROR'' \<rparr>)
   \<and> message \<lparr> message = ''Failed to parse recipe data from AI.'', error_code = ''JSON_PARSE_ERROR'' \<rparr>
       = ''Failed to parse recipe data from AI.''
   \<and> error_code \<lparr> message = ''Failed to parse recipe data from AI.'', error_code = ''JSON_PARSE_ERROR'' \<rparr>
       = ''JSON_PARSE_ERROR''"
proof -
  have h: "parse_response json_loads ''@''
     = Inl (ServiceError \<lparr> message = ''Failed to parse recipe data from AI.'',
                          error_code = ''JSON_PARSE_ERROR'' \<rparr>)"
    by code_simp
  show ?thesis using h decode_error_fixed [OF h] by blast
qed

text \<open>
  C7 as stated fails: the substitution is one pass, and \<open>[1,,]\<close> becomes \<open>[1,]\<close>,
  which still has a comma before the closing bracket.
\<close>

theorem trailing_commas_counterexample:
  "remove_trailing_commas ''[1,,]'' = ''[1,]''
   \<and> has_trailing_comma (remove_trailing_commas ''[1,,]'')"
  by code_simp

text \<open>
  C7, amended. The step is a single pass from the left: a character of the text is deleted
  exactly when it is a comma that is followed, in the text as it was, by optional
  whitespace and a closing brace or bracket; every other character is kept.
\<close>

theorem trailing_commas_single_pass:
  "remove_trailing_commas [] = []
   \<and> remove_trailing_commas (c # cs) =
       (if c = CHR '','' \<and> closer_follows cs then remove_trailing_commas cs
        else c # remove_trailing_commas cs)"
  using remove_trailing_commas_step [of c cs] by simp

end
